theory Spec2Isabelle
  imports Main "HOL-Library.Word" "HOL-Library.Sublist"
begin

section \<open>Memory model\<close>

text \<open>
  The header \<^verbatim>\<open>util/strext.h\<close> defines one function, a fallback \<^verbatim>\<open>strndup\<close>.  It works on
  raw memory, so the model is an explicit byte store.  Addresses and \<^verbatim>\<open>size_t\<close> values
  are words of an arbitrary width \<open>'a\<close> (32 or 64 bits on the targets of the header);
  word addition wraps as unsigned C arithmetic does.

  A state holds the byte store, the table of live objects (base address and size in
  bytes), the allocator (what \<^verbatim>\<open>malloc\<close> answers for a request, given the live objects;
  \<open>0\<close> is the null pointer) and a trace of the memory events so far, newest first.
  The trace is ghost state: it records what was read, written and requested.
\<close>

type_synonym byte = "8 word"

datatype 'p event = Read 'p | Write 'p byte | Malloc 'p 'p

record 'p state =
  mem :: "'p \<Rightarrow> byte"
  objects :: "('p \<times> nat) list"
  allocator :: "('p \<times> nat) list \<Rightarrow> 'p \<Rightarrow> 'p"
  trace :: "'p event list"

definition load :: "'a::len word \<Rightarrow> 'a word state \<Rightarrow> byte \<times> 'a word state" where
  "load a s = (mem s a, s\<lparr>trace := Read a # trace s\<rparr>)"

definition store :: "'a::len word \<Rightarrow> byte \<Rightarrow> 'a word state \<Rightarrow> 'a word state" where
  "store a b s = s\<lparr>mem := (mem s)(a := b), trace := Write a b # trace s\<rparr>"

section \<open>The library primitives the header calls\<close>

text \<open>
  Modelled from the spec: \<^verbatim>\<open>strnlen\<close> is a platform library function, absent from the
  sources.  The spec describes it as the bounded length scan, "return the number of bytes
  before the first zero terminator, or the bound, whichever is smaller", which never
  examines more than the given number of bytes.  The loop below is
  \<^verbatim>\<open>for (i = 0; i < maxlen && s[i] != 0; i++);\<close> with \<open>k\<close> the iterations left.
\<close>

fun strnlen_loop :: "'a::len word \<Rightarrow> nat \<Rightarrow> 'a word \<Rightarrow> 'a word state \<Rightarrow> 'a word \<times> 'a word state" where
  "strnlen_loop s 0 i st = (i, st)"
| "strnlen_loop s (Suc k) i st =
     (case load (s + i) st of
        (b, st') \<Rightarrow> if b = 0 then (i, st') else strnlen_loop s k (i + 1) st')"

definition strnlen :: "'a::len word \<Rightarrow> 'a word \<Rightarrow> 'a word state \<Rightarrow> 'a word \<times> 'a word state" where
  "strnlen s maxlen st = strnlen_loop s (unat maxlen) 0 st"

text \<open>
  Modelled from the spec: \<^verbatim>\<open>malloc\<close> is the general-purpose heap allocator, absent from
  the sources: "allocate N bytes, return null on failure".  The answer is the state's
  allocator applied to the live objects and the requested size; a non-null answer
  becomes a new live object of that size.  The contents of the store are not touched.
\<close>

definition malloc :: "'a::len word \<Rightarrow> 'a word state \<Rightarrow> 'a word \<times> 'a word state" where
  "malloc n st =
     (let p = allocator st (objects st) n
      in (p, st\<lparr>objects := (if p = 0 then objects st else (p, unat n) # objects st),
                trace := Malloc n p # trace st\<rparr>))"

text \<open>
  Modelled from the spec: \<^verbatim>\<open>memcpy\<close> is the raw memory-copy primitive, absent from the
  sources.  It copies \<open>n\<close> bytes from \<open>src\<close> to \<open>dst\<close>, lowest address first; \<open>k\<close> is the
  number of bytes left and \<open>i\<close> the offset reached.
\<close>

fun memcpy_loop :: "'a::len word \<Rightarrow> 'a word \<Rightarrow> nat \<Rightarrow> 'a word \<Rightarrow> 'a word state \<Rightarrow> 'a word state" where
  "memcpy_loop dst src 0 i st = st"
| "memcpy_loop dst src (Suc k) i st =
     (case load (src + i) st of
        (b, st') \<Rightarrow> memcpy_loop dst src k (i + 1) (store (dst + i) b st'))"

definition memcpy :: "'a::len word \<Rightarrow> 'a word \<Rightarrow> 'a word \<Rightarrow> 'a word state \<Rightarrow> 'a word state" where
  "memcpy dst src n st = memcpy_loop dst src (unat n) 0 st"

section \<open>The function of the header\<close>

text \<open>
  \<^verbatim>\<open>static inline char *strndup(const char *const str, const size_t maxlen)\<close>:
  the length is \<^verbatim>\<open>strnlen(str, maxlen)\<close>, the request is \<^verbatim>\<open>malloc(len + 1)\<close> (a word
  addition, which wraps), and only under \<^verbatim>\<open>if (ret)\<close> are the \<open>len\<close> bytes copied and
  \<^verbatim>\<open>ret[len]\<close> set to zero.  The pointer is returned in both branches.
\<close>

definition strndup :: "'a::len word \<Rightarrow> 'a word \<Rightarrow> 'a word state \<Rightarrow> 'a word \<times> 'a word state" where
  "strndup str maxlen st =
     (case strnlen str maxlen st of
        (len, st1) \<Rightarrow>
          (case malloc (len + 1) st1 of
             (ret, st2) \<Rightarrow>
               if ret \<noteq> 0 then (ret, store (ret + len) 0 (memcpy ret str len st2))
               else (ret, st2)))"


section \<open>Reading strings out of the store\<close>

text \<open>
  \<open>addr_seq p n\<close> is the \<open>n\<close> consecutive addresses from \<open>p\<close> (wrapping at the end of the
  address space, as pointer arithmetic on words does), \<open>load_bytes\<close> the bytes stored
  there.  \<open>holds_string m p bs\<close> says that the zero-terminated string at \<open>p\<close> in the
  store \<open>m\<close> is \<open>bs\<close>: the bytes of \<open>bs\<close>, none of them zero, followed by a zero byte.
\<close>

fun addr_seq :: "'a::len word \<Rightarrow> nat \<Rightarrow> 'a word list" where
  "addr_seq p 0 = []"
| "addr_seq p (Suc n) = p # addr_seq (p + 1) n"

definition load_bytes :: "('a::len word \<Rightarrow> byte) \<Rightarrow> 'a word \<Rightarrow> nat \<Rightarrow> byte list" where
  "load_bytes m p n = map m (addr_seq p n)"

definition holds_string :: "('a::len word \<Rightarrow> byte) \<Rightarrow> 'a word \<Rightarrow> byte list \<Rightarrow> bool" where
  "holds_string m p bs = (0 \<notin> set bs \<and> load_bytes m p (length bs + 1) = bs @ [0])"

text \<open>
  A live object is well formed when its base is not the null pointer and it does not
  run past the end of the address space.  \<open>within ob p n\<close>: the \<open>n\<close> bytes from \<open>p\<close> lie
  inside the object; \<open>separate\<close>: two objects share no byte; \<open>in_block p n a\<close>: the
  address \<open>a\<close> is one of the \<open>n\<close> addresses from \<open>p\<close>.
\<close>

definition obj_ok :: "'a::len word \<times> nat \<Rightarrow> bool" where
  "obj_ok ob = (fst ob \<noteq> 0 \<and> unat (fst ob) + snd ob \<le> 2 ^ LENGTH('a))"

definition within :: "'a::len word \<times> nat \<Rightarrow> 'a word \<Rightarrow> nat \<Rightarrow> bool" where
  "within ob p n = (unat (fst ob) \<le> unat p \<and> unat p + n \<le> unat (fst ob) + snd ob)"

definition separate :: "'a::len word \<times> nat \<Rightarrow> 'a word \<times> nat \<Rightarrow> bool" where
  "separate a b = (unat (fst a) + snd a \<le> unat (fst b) \<or> unat (fst b) + snd b \<le> unat (fst a))"

definition in_block :: "'a::len word \<Rightarrow> nat \<Rightarrow> 'a word \<Rightarrow> bool" where
  "in_block p n a = (unat (a - p) < n)"

text \<open>
  The input of \<^verbatim>\<open>strndup\<close>: a zero-terminated string \<open>bs\<close> at \<open>p\<close>, terminator included
  inside one well-formed live object.
\<close>

definition cstring_at :: "'a::len word state \<Rightarrow> 'a word \<Rightarrow> byte list \<Rightarrow> bool" where
  "cstring_at st p bs =
     (holds_string (mem st) p bs \<and>
      list_ex (\<lambda>ob. obj_ok ob \<and> within ob p (length bs + 1)) (objects st))"

text \<open>
  The contract of \<^verbatim>\<open>malloc\<close>: whatever the size, a non-null answer is a well-formed
  block of that size which shares no byte with a live object.
\<close>

definition alloc_sound :: "'a::len word state \<Rightarrow> bool" where
  "alloc_sound st =
     (\<forall>n. let p = allocator st (objects st) n
          in p \<noteq> 0 \<longrightarrow> obj_ok (p, unat n) \<and> list_all (separate (p, unat n)) (objects st))"

text \<open>The addresses read, the writes and the sizes requested, newest first.\<close>

fun reads :: "'p event list \<Rightarrow> 'p list" where
  "reads [] = []"
| "reads (Read a # es) = a # reads es"
| "reads (e # es) = reads es"

fun writes :: "'p event list \<Rightarrow> ('p \<times> byte) list" where
  "writes [] = []"
| "writes (Write a b # es) = (a, b) # writes es"
| "writes (e # es) = writes es"

fun requests :: "'p event list \<Rightarrow> 'p list" where
  "requests [] = []"
| "requests (Malloc n p # es) = n # requests es"
| "requests (e # es) = requests es"

text \<open>Bytes of a string literal, for the concrete scenarios.\<close>

definition bytes_of :: "string \<Rightarrow> byte list" where
  "bytes_of cs = map (\<lambda>c. of_nat (of_char c)) cs"

text \<open>Writing a byte list into a store, for building concrete inputs.\<close>

fun poke :: "('a::len word \<Rightarrow> byte) \<Rightarrow> 'a word \<Rightarrow> byte list \<Rightarrow> ('a word \<Rightarrow> byte)" where
  "poke m p [] = m"
| "poke m p (b # bs) = poke (m(p := b)) (p + 1) bs"

text \<open>
  Concrete inputs for the scenarios: a 64-bit state whose store holds the string \<open>cs\<close>
  and its terminator at address \<open>0x1000\<close> inside one live object, every other byte
  being \<open>0xAA\<close>; an allocator with a single 64-byte block at a given base, and one that
  always fails.
\<close>

definition pool_alloc :: "64 word \<Rightarrow> (64 word \<times> nat) list \<Rightarrow> 64 word \<Rightarrow> 64 word" where
  "pool_alloc base objs n =
     (if unat n \<le> 64 \<and> list_all (separate (base, 64)) objs then base else 0)"

definition no_alloc :: "(64 word \<times> nat) list \<Rightarrow> 64 word \<Rightarrow> 64 word" where
  "no_alloc objs n = 0"

definition demo_state :: "((64 word \<times> nat) list \<Rightarrow> 64 word \<Rightarrow> 64 word) \<Rightarrow> string \<Rightarrow> 64 word state" where
  "demo_state A cs =
     \<lparr>mem = poke (\<lambda>a. 0xAA) 0x1000 (bytes_of cs @ [0]),
      objects = [(0x1000, length cs + 1)],
      allocator = A,
      trace = []\<rparr>"

section \<open>The platform primitive the header stands in for\<close>

text \<open>
  Modelled from the spec: the platform-provided \<^verbatim>\<open>strndup\<close>, which the header replaces
  on one toolchain, is absent from the sources.  The spec gives its contract: "produce a
  new independently-owned zero-terminated copy containing at most \<open>bound\<close> bytes of the
  input's content (not counting the terminator), or signal allocation failure".  As a
  function of the array \<open>arr\<close> the pointer refers to, the bound, and whether the
  allocator provides the space: the content of the created string is what precedes the
  first zero byte among the first \<open>bound\<close> bytes of the array; no space means no result.
\<close>

definition std_strndup :: "byte list \<Rightarrow> nat \<Rightarrow> bool \<Rightarrow> byte list option" where
  "std_strndup arr bound space =
     (if space then Some (takeWhile (\<lambda>b. b \<noteq> 0) (take bound arr)) else None)"

section \<open>Facts about addresses and the primitives\<close>


lemma length_addr_seq [simp]: "length (addr_seq p n) = n"
  by (induction n arbitrary: p) auto

lemma length_load_bytes [simp]: "length (load_bytes m p n) = n"
  by (simp add: load_bytes_def)

lemma addr_seq_append: "addr_seq p (a + b) = addr_seq p a @ addr_seq (p + of_nat a) b"
  by (induction a arbitrary: p) (auto simp: ac_simps)

lemma load_bytes_append:
  "load_bytes m p (a + b) = load_bytes m p a @ load_bytes m (p + of_nat a) b"
  by (simp add: load_bytes_def addr_seq_append)

lemma in_block_interval:
  "unat p + n \<le> 2 ^ LENGTH('a) \<Longrightarrow>
   in_block p n (a :: 'a::len word) = (unat p \<le> unat a \<and> unat a < unat p + n)"
  unfolding in_block_def
  by (auto simp: unat_sub_if' word_le_nat_alt)

lemma in_block_step: "in_block (p + 1) k a \<Longrightarrow> in_block p (Suc k) a"
proof (cases "a - p = 0")
  case True
  then show ?thesis by (simp add: in_block_def)
next
  case False
  assume "in_block (p + 1) k a"
  then have "unat (a - p - 1) < k" by (simp add: in_block_def diff_diff_eq)
  with False show ?thesis by (simp add: in_block_def unat_minus_one)
qed

lemma in_block_self: "in_block p (Suc k) p"
  by (simp add: in_block_def)

lemma not_in_block_next:
  "Suc k \<le> 2 ^ LENGTH('a) \<Longrightarrow> \<not> in_block (p + 1) k (p :: 'a::len word)"
proof -
  assume k: "Suc k \<le> 2 ^ LENGTH('a)"
  have "p - (p + 1) = - 1" by simp
  then have "unat (p - (p + 1)) = 2 ^ LENGTH('a) - 1" by (simp add: unsigned_minus_1_eq_mask mask_eq_exp_minus_1)
  with k show ?thesis by (simp add: in_block_def)
qed

lemma in_block_addr_seq: "a \<in> set (addr_seq p n) \<Longrightarrow> in_block p n a"
  by (induction n arbitrary: p) (auto simp: in_block_self dest: in_block_step)

lemma strnlen_loop_eq:
  "strnlen_loop s k i st =
     (let n = length (takeWhile (\<lambda>b. b \<noteq> 0) (load_bytes (mem st) (s + i) k))
      in (i + of_nat n, st\<lparr>trace := map Read (rev (addr_seq (s + i) (min k (Suc n)))) @ trace st\<rparr>))"
proof (induction k arbitrary: i st)
  case 0
  then show ?case by (simp add: load_bytes_def)
next
  case (Suc k)
  show ?case
    by (simp add: Suc load_def load_bytes_def Let_def ac_simps)
qed


lemma strnlen_eq:
  "strnlen s maxlen st =
     (let n = length (takeWhile (\<lambda>b. b \<noteq> 0) (load_bytes (mem st) s (unat maxlen)))
      in (of_nat n, st\<lparr>trace := map Read (rev (addr_seq s (min (unat maxlen) (Suc n)))) @ trace st\<rparr>))"
  using strnlen_loop_eq [of s "unat maxlen" 0 st] by (simp add: strnlen_def)

lemma load_bytes_upd_other:
  "a \<notin> set (addr_seq p n) \<Longrightarrow> load_bytes (m(a := b)) p n = load_bytes m p n"
  by (auto simp: load_bytes_def)

lemma memcpy_loop_objects [simp]: "objects (memcpy_loop dst src k i st) = objects st"
  by (induction k arbitrary: i st) (auto simp: load_def store_def)

lemma memcpy_loop_allocator [simp]: "allocator (memcpy_loop dst src k i st) = allocator st"
  by (induction k arbitrary: i st) (auto simp: load_def store_def)

lemma memcpy_loop_requests [simp]:
  "requests (trace (memcpy_loop dst src k i st)) = requests (trace st)"
  by (induction k arbitrary: i st) (auto simp: load_def store_def)

lemma memcpy_loop_reads:
  "reads (trace (memcpy_loop dst src k i st)) = rev (addr_seq (src + i) k) @ reads (trace st)"
  by (induction k arbitrary: i st) (auto simp: load_def store_def ac_simps)

lemma memcpy_loop_writes:
  "map fst (writes (trace (memcpy_loop dst src k i st)))
     = rev (addr_seq (dst + i) k) @ map fst (writes (trace st))"
  by (induction k arbitrary: i st) (auto simp: load_def store_def ac_simps)

lemma memcpy_loop_outside:
  "\<not> in_block (dst + i) k a \<Longrightarrow> mem (memcpy_loop dst src k i st) a = mem st a"
proof (induction k arbitrary: i st)
  case 0
  then show ?case by simp
next
  case (Suc k)
  from Suc.prems have ne: "a \<noteq> dst + i" using in_block_self by blast
  from Suc.prems have "\<not> in_block (dst + (i + 1)) k a"
    using in_block_step [of "dst + i" k a] by (auto simp: ac_simps)
  from Suc.IH [OF this] ne show ?case
    by (simp add: load_def store_def)
qed

lemma memcpy_loop_copy:
  fixes dst src i :: "'a::len word"
  assumes "k \<le> 2 ^ LENGTH('a)"
    and "\<forall>a \<in> set (addr_seq (src + i) k). \<not> in_block (dst + i) k a"
  shows "load_bytes (mem (memcpy_loop dst src k i st)) (dst + i) k = load_bytes (mem st) (src + i) k"
  using assms
proof (induction k arbitrary: i st)
  case 0
  then show ?case by (simp add: load_bytes_def)
next
  case (Suc k)
  let ?st1 = "store (dst + i) (mem st (src + i)) (st\<lparr>trace := Read (src + i) # trace st\<rparr>)"
  have run: "memcpy_loop dst src (Suc k) i st = memcpy_loop dst src k (i + 1) ?st1"
    by (simp add: load_def)
  have disj: "\<forall>a \<in> set (addr_seq (src + (i + 1)) k). \<not> in_block (dst + (i + 1)) k a"
  proof
    fix a assume "a \<in> set (addr_seq (src + (i + 1)) k)"
    then have "a \<in> set (addr_seq (src + i) (Suc k))" by (simp add: ac_simps)
    with Suc.prems(2) have "\<not> in_block (dst + i) (Suc k) a" by blast
    then show "\<not> in_block (dst + (i + 1)) k a"
      using in_block_step [of "dst + i" k a] by (auto simp: ac_simps)
  qed
  from Suc.prems(1) have k: "k \<le> 2 ^ LENGTH('a)" by simp
  have tail: "load_bytes (mem (memcpy_loop dst src k (i + 1) ?st1)) (dst + (i + 1)) k
                = load_bytes (mem ?st1) (src + (i + 1)) k"
    by (rule Suc.IH [OF k disj])
  have notin: "dst + i \<notin> set (addr_seq (src + (i + 1)) k)"
  proof
    assume "dst + i \<in> set (addr_seq (src + (i + 1)) k)"
    then have "dst + i \<in> set (addr_seq (src + i) (Suc k))" by (simp add: ac_simps)
    with Suc.prems(2) have "\<not> in_block (dst + i) (Suc k) (dst + i)" by blast
    then show False by (simp add: in_block_self)
  qed
  have same: "load_bytes (mem ?st1) (src + (i + 1)) k = load_bytes (mem st) (src + (i + 1)) k"
    using load_bytes_upd_other [OF notin] by (simp add: store_def)
  have "\<not> in_block (dst + (i + 1)) k (dst + i)"
    using not_in_block_next [of k "dst + i"] Suc.prems(1) by (simp add: ac_simps)
  then have head: "mem (memcpy_loop dst src k (i + 1) ?st1) (dst + i) = mem st (src + i)"
    by (simp add: memcpy_loop_outside store_def)
  show ?case
    unfolding run using tail same head by (simp add: load_bytes_def ac_simps)
qed

lemma takeWhile_no_zero: "(0::byte) \<notin> set xs \<Longrightarrow> takeWhile (\<lambda>b. b \<noteq> 0) xs = xs"
  by (induction xs) auto

lemma scan_string:
  assumes "holds_string m p bs"
  shows "takeWhile (\<lambda>b. b \<noteq> 0) (load_bytes m p k) = take k bs"
proof (cases "k \<le> length bs")
  case True
  from assms have nz: "0 \<notin> set bs" and ld: "load_bytes m p (length bs + 1) = bs @ [0]"
    by (simp_all add: holds_string_def)
  from True have "length bs + 1 = k + (length bs + 1 - k)" by simp
  then have "load_bytes m p (length bs + 1)
               = load_bytes m p k @ load_bytes m (p + of_nat k) (length bs + 1 - k)"
    using load_bytes_append [of m p k "length bs + 1 - k"] by simp
  with ld have "take k (bs @ [0]) = load_bytes m p k" by simp
  with True have eq: "load_bytes m p k = take k bs" by simp
  from nz have "0 \<notin> set (take k bs)" by (auto dest: in_set_takeD)
  with eq show ?thesis by (simp add: takeWhile_no_zero)
next
  case False
  from assms have nz: "0 \<notin> set bs" and ld: "load_bytes m p (length bs + 1) = bs @ [0]"
    by (simp_all add: holds_string_def)
  from False have "k = (length bs + 1) + (k - (length bs + 1))" by simp
  then have "load_bytes m p k
               = load_bytes m p (length bs + 1) @ load_bytes m (p + of_nat (length bs + 1)) (k - (length bs + 1))"
    using load_bytes_append [of m p "length bs + 1" "k - (length bs + 1)"] by simp
  with ld have "load_bytes m p k = bs @ 0 # load_bytes m (p + of_nat (length bs + 1)) (k - (length bs + 1))"
    by simp
  with nz False show ?thesis by (simp add: takeWhile_tail takeWhile_no_zero)
qed

section \<open>Facts about the duplicator\<close>


lemma reads_map_Read [simp]: "reads (map Read xs @ es) = xs @ reads es"
  by (induction xs) auto

lemma writes_map_Read [simp]: "writes (map Read xs @ es) = writes es"
  by (induction xs) auto

lemma requests_map_Read [simp]: "requests (map Read xs @ es) = requests es"
  by (induction xs) auto

lemma strnlen_frame:
  assumes "strnlen s maxlen st = (len, st1)"
  shows "mem st1 = mem st" and "objects st1 = objects st" and "allocator st1 = allocator st"
    and "writes (trace st1) = writes (trace st)"
    and "requests (trace st1) = requests (trace st)"
    and "len = of_nat (length (takeWhile (\<lambda>b. b \<noteq> 0) (load_bytes (mem st) s (unat maxlen))))"
  using assms by (auto simp: strnlen_eq Let_def)

lemma strndup_run:
  assumes "strndup str maxlen st = (ret, st')"
  shows "\<exists>len st1 st2.
           strnlen str maxlen st = (len, st1) \<and> malloc (len + 1) st1 = (ret, st2) \<and>
           st' = (if ret = 0 then st2 else store (ret + len) 0 (memcpy ret str len st2))"
  using assms by (auto simp: strndup_def split: prod.splits if_splits)

lemma malloc_frame:
  assumes "malloc n st = (p, st2)"
  shows "mem st2 = mem st" and "allocator st2 = allocator st"
    and "p = allocator st (objects st) n"
    and "objects st2 = (if p = 0 then objects st else (p, unat n) # objects st)"
    and "writes (trace st2) = writes (trace st)"
    and "reads (trace st2) = reads (trace st)"
    and "requests (trace st2) = n # requests (trace st)"
  using assms by (auto simp: malloc_def Let_def)

lemma strndup_null:
  assumes "strndup str maxlen st = (ret, st')" and "ret = 0"
  shows "mem st' = mem st" and "objects st' = objects st" and "allocator st' = allocator st"
    and "writes (trace st') = writes (trace st)"
proof -
  from assms(1) obtain len st1 st2 where
    a: "strnlen str maxlen st = (len, st1)" and b: "malloc (len + 1) st1 = (ret, st2)"
    and c: "st' = (if ret = 0 then st2 else store (ret + len) 0 (memcpy ret str len st2))"
    using strndup_run by blast
  from c assms(2) have st': "st' = st2" by simp
  show "mem st' = mem st" using st' malloc_frame(1) [OF b] strnlen_frame(1) [OF a] by simp
  show "objects st' = objects st"
    using st' malloc_frame(4) [OF b] strnlen_frame(2) [OF a] assms(2) by simp
  show "allocator st' = allocator st"
    using st' malloc_frame(2) [OF b] strnlen_frame(3) [OF a] by simp
  show "writes (trace st') = writes (trace st)"
    using st' malloc_frame(5) [OF b] strnlen_frame(4) [OF a] by simp
qed

lemma in_block_mono: "in_block p n a \<Longrightarrow> n \<le> n' \<Longrightarrow> in_block p n' a"
  by (simp add: in_block_def)

lemma strndup_outside:
  assumes "strndup str maxlen st = (ret, st')"
    and "\<not> in_block ret (Suc (unat (fst (strnlen str maxlen st)))) a"
  shows "mem st' a = mem st a"
proof -
  from assms(1) obtain len st1 st2 where
    a: "strnlen str maxlen st = (len, st1)" and b: "malloc (len + 1) st1 = (ret, st2)"
    and c: "st' = (if ret = 0 then st2 else store (ret + len) 0 (memcpy ret str len st2))"
    using strndup_run by blast
  have m2: "mem st2 = mem st" using malloc_frame(1) [OF b] strnlen_frame(1) [OF a] by simp
  show ?thesis
  proof (cases "ret = 0")
    case True
    with c m2 show ?thesis by simp
  next
    case False
    from assms(2) a have out: "\<not> in_block ret (Suc (unat len)) a" by simp
    then have "\<not> in_block (ret + 0) (unat len) a" using in_block_mono [of ret "unat len" a "Suc (unat len)"] by auto
    then have cp: "mem (memcpy ret str len st2) a = mem st2 a"
      unfolding memcpy_def by (rule memcpy_loop_outside)
    from out have "a \<noteq> ret + len" by (auto simp: in_block_def)
    with cp c False m2 show ?thesis by (simp add: store_def)
  qed
qed

subsection \<open>Duplicating a string that lies in a live object\<close>


lemma cstring_object:
  fixes str :: "'a::len word"
  assumes "cstring_at st str S"
  shows "\<exists>ob \<in> set (objects st). obj_ok ob \<and> within ob str (length S + 1)"
  using assms by (simp add: cstring_at_def list_ex_iff)

lemma cstring_bounds:
  fixes str :: "'a::len word"
  assumes "cstring_at st str S"
  shows "unat str + length S + 1 \<le> 2 ^ LENGTH('a)" and "length S + 1 < 2 ^ LENGTH('a)"
proof -
  from cstring_object [OF assms] obtain ob where
    ok: "obj_ok ob" and w: "within ob str (length S + 1)" by blast
  from ok have "unat (fst ob) \<noteq> 0" by (simp add: obj_ok_def unat_eq_0)
  with ok w show "unat str + length S + 1 \<le> 2 ^ LENGTH('a)" and "length S + 1 < 2 ^ LENGTH('a)"
    by (auto simp: obj_ok_def within_def)
qed

lemma strnlen_string:
  fixes str :: "'a::len word"
  assumes "cstring_at st str S" and "strnlen str maxlen st = (len, st1)"
  shows "len = of_nat (min (length S) (unat maxlen))"
    and "unat len = min (length S) (unat maxlen)"
    and "unat (len + 1) = min (length S) (unat maxlen) + 1"
proof -
  let ?n = "min (length S) (unat maxlen)"
  from assms(1) have hs: "holds_string (mem st) str S" by (simp add: cstring_at_def)
  have "length (takeWhile (\<lambda>b. b \<noteq> 0) (load_bytes (mem st) str (unat maxlen))) = ?n"
    by (simp add: scan_string [OF hs] min.commute)
  with strnlen_frame(6) [OF assms(2)] show len: "len = of_nat ?n" by simp
  from cstring_bounds(2) [OF assms(1)] have lt: "?n + 1 < 2 ^ LENGTH('a)" by simp
  then have "?n < 2 ^ LENGTH('a)" by simp
  then show "unat len = ?n" unfolding len by (rule of_nat_inverse [OF refl])
  have "len + 1 = of_nat (?n + 1)" unfolding len by simp
  with lt show "unat (len + 1) = ?n + 1"
    using of_nat_inverse [of "?n + 1" "len + 1"] by simp
qed

lemma new_block_disjoint:
  fixes str :: "'a::len word"
  assumes "cstring_at st str S" and "alloc_sound st"
    and "ret = allocator st (objects st) sz" and "ret \<noteq> 0"
    and "in_block str (length S + 1) a"
  shows "\<not> in_block ret (unat sz) a"
proof -
  from cstring_object [OF assms(1)] obtain ob where
    ob: "ob \<in> set (objects st)" and ok: "obj_ok ob" and w: "within ob str (length S + 1)"
    by blast
  from assms(2,3,4) have new: "obj_ok (ret, unat sz)"
    and all: "list_all (separate (ret, unat sz)) (objects st)"
    by (auto simp: alloc_sound_def Let_def)
  from all ob have sep: "separate (ret, unat sz) ob" by (simp add: list_all_iff)
  from new have nb: "unat ret + unat sz \<le> 2 ^ LENGTH('a)" by (simp add: obj_ok_def)
  from assms(5) cstring_bounds(1) [OF assms(1)]
  have "unat str \<le> unat a \<and> unat a < unat str + (length S + 1)"
    using in_block_interval [of str "length S + 1" a] by simp
  with w sep show ?thesis
    using in_block_interval [OF nb, of a] by (auto simp: within_def separate_def)
qed

lemma load_prefix:
  assumes "holds_string m p bs" and "k \<le> length bs"
  shows "load_bytes m p k = take k bs"
proof -
  from assms have ld: "load_bytes m p (length bs + 1) = bs @ [0]"
    by (simp add: holds_string_def)
  from assms(2) have "length bs + 1 = k + (length bs + 1 - k)" by simp
  then have "load_bytes m p (length bs + 1)
               = load_bytes m p k @ load_bytes m (p + of_nat k) (length bs + 1 - k)"
    using load_bytes_append [of m p k "length bs + 1 - k"] by simp
  with ld have "take k (bs @ [0]) = load_bytes m p k" by simp
  with assms(2) show ?thesis by simp
qed

lemma load_bytes_cong:
  "(\<And>a. a \<in> set (addr_seq p n) \<Longrightarrow> m a = m' a) \<Longrightarrow> load_bytes m p n = load_bytes m' p n"
  by (simp add: load_bytes_def)

lemma load_bytes_snoc: "load_bytes m p (Suc n) = load_bytes m p n @ [m (p + of_nat n)]"
  using load_bytes_append [of m p n 1] by (simp add: load_bytes_def)

lemma strndup_content:
  fixes str :: "'a::len word"
  assumes str: "cstring_at st str S" and snd: "alloc_sound st"
    and run: "strndup str maxlen st = (ret, st')" and nz: "ret \<noteq> 0"
  shows "load_bytes (mem st') ret (min (length S) (unat maxlen) + 1)
           = take (min (length S) (unat maxlen)) S @ [0]"
proof -
  let ?n = "min (length S) (unat maxlen)"
  from run obtain len st1 st2 where
    a: "strnlen str maxlen st = (len, st1)" and b: "malloc (len + 1) st1 = (ret, st2)"
    and c: "st' = (if ret = 0 then st2 else store (ret + len) 0 (memcpy ret str len st2))"
    using strndup_run by blast
  note len = strnlen_string [OF str a]
  from c nz have st': "st' = store (ret + len) 0 (memcpy ret str len st2)" by simp
  have m2: "mem st2 = mem st" using malloc_frame(1) [OF b] strnlen_frame(1) [OF a] by simp
  have ret: "ret = allocator st (objects st) (len + 1)"
    using malloc_frame(3) [OF b] strnlen_frame(2,3) [OF a] by simp
  from str have hs: "holds_string (mem st) str S" by (simp add: cstring_at_def)
  have disj: "\<forall>a \<in> set (addr_seq (str + 0) ?n). \<not> in_block (ret + 0) ?n a"
  proof
    fix a assume "a \<in> set (addr_seq (str + 0) ?n)"
    then have "in_block str ?n a" using in_block_addr_seq [of a str ?n] by simp
    then have "in_block str (length S + 1) a" by (rule in_block_mono) simp
    from new_block_disjoint [OF str snd ret nz this] have "\<not> in_block ret (?n + 1) a"
      by (simp add: len(3))
    then show "\<not> in_block (ret + 0) ?n a"
      using in_block_mono [of ret ?n a "?n + 1"] by auto
  qed
  have "?n \<le> 2 ^ LENGTH('a)" using cstring_bounds(2) [OF str] by simp
  from memcpy_loop_copy [OF this disj, of st2]
  have cp: "load_bytes (mem (memcpy ret str len st2)) ret ?n = take ?n S"
    by (simp add: memcpy_def len(2) m2 load_prefix [OF hs])
  have notin: "ret + len \<notin> set (addr_seq ret ?n)"
  proof
    assume "ret + len \<in> set (addr_seq ret ?n)"
    then have "in_block ret ?n (ret + len)" by (rule in_block_addr_seq)
    then show False by (simp add: in_block_def len(2))
  qed
  have "load_bytes (mem st') ret ?n = load_bytes (mem (memcpy ret str len st2)) ret ?n"
    unfolding st' using load_bytes_upd_other [OF notin] by (simp add: store_def)
  moreover have "mem st' (ret + of_nat ?n) = 0"
    unfolding st' by (simp add: store_def len(1))
  ultimately show ?thesis using cp by (simp add: load_bytes_snoc)
qed

lemma strndup_objects:
  assumes "strndup str maxlen st = (ret, st')"
  shows "objects st' =
           (if ret = 0 then objects st
            else (ret, unat (fst (strnlen str maxlen st) + 1)) # objects st)"
    and "allocator st' = allocator st"
    and "requests (trace st') = (fst (strnlen str maxlen st) + 1) # requests (trace st)"
proof -
  from assms obtain len st1 st2 where
    a: "strnlen str maxlen st = (len, st1)" and b: "malloc (len + 1) st1 = (ret, st2)"
    and c: "st' = (if ret = 0 then st2 else store (ret + len) 0 (memcpy ret str len st2))"
    using strndup_run by blast
  show "objects st' =
           (if ret = 0 then objects st
            else (ret, unat (fst (strnlen str maxlen st) + 1)) # objects st)"
    using a c malloc_frame(4) [OF b] strnlen_frame(2) [OF a]
    by (simp add: store_def memcpy_def)
  show "allocator st' = allocator st"
    using c malloc_frame(2) [OF b] strnlen_frame(3) [OF a]
    by (simp add: store_def memcpy_def)
  show "requests (trace st') = (fst (strnlen str maxlen st) + 1) # requests (trace st)"
    using a c malloc_frame(7) [OF b] strnlen_frame(5) [OF a]
    by (simp add: store_def memcpy_def)
qed

lemma strndup_ret_eq:
  assumes "strndup str maxlen st = (ret, st')"
  shows "ret = allocator st (objects st) (fst (strnlen str maxlen st) + 1)"
proof -
  from assms obtain len st1 st2 where
    a: "strnlen str maxlen st = (len, st1)" and b: "malloc (len + 1) st1 = (ret, st2)"
    using strndup_run by blast
  show ?thesis
    using a malloc_frame(3) [OF b] strnlen_frame(2,3) [OF a] by simp
qed

lemma strndup_string:
  fixes str :: "'a::len word"
  assumes str: "cstring_at st str S" and snd: "alloc_sound st"
    and run: "strndup str maxlen st = (ret, st')" and nz: "ret \<noteq> 0"
  shows "cstring_at st' ret (take (min (length S) (unat maxlen)) S)"
proof -
  let ?n = "min (length S) (unat maxlen)"
  have len: "unat (fst (strnlen str maxlen st) + 1) = ?n + 1"
    using strnlen_string(3) [OF str, of maxlen "fst (strnlen str maxlen st)" "snd (strnlen str maxlen st)"]
    by simp
  have ob: "objects st' = (ret, ?n + 1) # objects st"
    using strndup_objects(1) [OF run] nz len by simp
  from snd nz strndup_ret_eq [OF run] len have ok: "obj_ok (ret, ?n + 1)"
    by (auto simp: alloc_sound_def Let_def)
  from str have "0 \<notin> set S" by (simp add: cstring_at_def holds_string_def)
  then have nz': "0 \<notin> set (take ?n S)" by (auto dest: in_set_takeD)
  have "length (take ?n S) = ?n" by simp
  with strndup_content [OF str snd run nz] nz'
  have "holds_string (mem st') ret (take ?n S)" by (simp add: holds_string_def)
  with ob ok show ?thesis by (simp add: cstring_at_def within_def)
qed

lemma strnlen_unat:
  "unat (fst (strnlen str maxlen st))
     = length (takeWhile (\<lambda>b. b \<noteq> 0) (load_bytes (mem st) str (unat maxlen)))"
proof -
  let ?n = "length (takeWhile (\<lambda>b. b \<noteq> 0) (load_bytes (mem st) str (unat maxlen)))"
  have "?n \<le> unat maxlen"
    using length_takeWhile_le [of "\<lambda>b. b \<noteq> 0" "load_bytes (mem st) str (unat maxlen)"] by simp
  also have "unat maxlen < 2 ^ LENGTH('a)" by (rule unsigned_less)
  finally have "unat (of_nat ?n :: 'a word) = ?n" by (rule of_nat_inverse [OF refl])
  moreover have "fst (strnlen str maxlen st) = of_nat ?n" by (simp add: strnlen_eq Let_def)
  ultimately show ?thesis by simp
qed

lemma strnlen_le: "unat (fst (strnlen str maxlen st)) \<le> unat maxlen"
  unfolding strnlen_unat
  using length_takeWhile_le [of "\<lambda>b. b \<noteq> 0" "load_bytes (mem st) str (unat maxlen)"] by simp

lemma strndup_reads:
  assumes "strndup str maxlen st = (ret, st')"
  shows "reads (trace (snd (strnlen str maxlen st)))
           = rev (addr_seq str (min (unat maxlen) (Suc (unat (fst (strnlen str maxlen st))))))
             @ reads (trace st)"
    and "reads (trace st')
           = rev (addr_seq str (if ret = 0 then 0 else unat (fst (strnlen str maxlen st))))
             @ reads (trace (snd (strnlen str maxlen st)))"
proof -
  from assms obtain len st1 st2 where
    a: "strnlen str maxlen st = (len, st1)" and b: "malloc (len + 1) st1 = (ret, st2)"
    and c: "st' = (if ret = 0 then st2 else store (ret + len) 0 (memcpy ret str len st2))"
    using strndup_run by blast
  show "reads (trace (snd (strnlen str maxlen st)))
          = rev (addr_seq str (min (unat maxlen) (Suc (unat (fst (strnlen str maxlen st))))))
            @ reads (trace st)"
    unfolding strnlen_unat by (simp add: strnlen_eq Let_def)
  show "reads (trace st')
          = rev (addr_seq str (if ret = 0 then 0 else unat (fst (strnlen str maxlen st))))
            @ reads (trace (snd (strnlen str maxlen st)))"
    using a c malloc_frame(6) [OF b] memcpy_loop_reads [of ret str "unat len" 0 st2]
    by (simp add: store_def memcpy_def)
qed

lemma strndup_writes:
  assumes "strndup str maxlen st = (ret, st')"
  shows "map fst (writes (trace st')) =
           (if ret = 0 then []
            else (ret + fst (strnlen str maxlen st))
                   # rev (addr_seq ret (unat (fst (strnlen str maxlen st)))))
           @ map fst (writes (trace st))"
proof -
  from assms obtain len st1 st2 where
    a: "strnlen str maxlen st = (len, st1)" and b: "malloc (len + 1) st1 = (ret, st2)"
    and c: "st' = (if ret = 0 then st2 else store (ret + len) 0 (memcpy ret str len st2))"
    using strndup_run by blast
  show ?thesis
    using a c malloc_frame(5) [OF b] strnlen_frame(4) [OF a]
      memcpy_loop_writes [of ret str "unat len" 0 st2]
    by (simp add: store_def memcpy_def)
qed

lemma strndup_input_kept:
  fixes str :: "'a::len word"
  assumes str: "cstring_at st str S" and snd: "alloc_sound st"
    and run: "strndup str maxlen st = (ret, st')"
  shows "cstring_at st' str S"
proof -
  let ?n = "min (length S) (unat maxlen)"
  have len: "unat (fst (strnlen str maxlen st) + 1) = ?n + 1"
    and len': "unat (fst (strnlen str maxlen st)) = ?n"
    using strnlen_string(2,3) [OF str, of maxlen "fst (strnlen str maxlen st)" "snd (strnlen str maxlen st)"]
    by simp_all
  have same: "mem st' a = mem st a" if "a \<in> set (addr_seq str (length S + 1))" for a
  proof (cases "ret = 0")
    case True
    with strndup_null(1) [OF run] show ?thesis by simp
  next
    case False
    from that have "in_block str (length S + 1) a" by (rule in_block_addr_seq)
    from new_block_disjoint [OF str snd strndup_ret_eq [OF run] False this]
    have "\<not> in_block ret (Suc (unat (fst (strnlen str maxlen st)))) a"
      by (simp add: len len')
    then show ?thesis by (rule strndup_outside [OF run])
  qed
  have "load_bytes (mem st') str (length S + 1) = load_bytes (mem st) str (length S + 1)"
    by (rule load_bytes_cong) (rule same)
  with str have hs: "holds_string (mem st') str S"
    by (simp add: cstring_at_def holds_string_def)
  from str have "list_ex (\<lambda>ob. obj_ok ob \<and> within ob str (length S + 1)) (objects st')"
    using strndup_objects(1) [OF run] by (simp add: cstring_at_def)
  with hs show ?thesis by (simp add: cstring_at_def)
qed

lemma take_min_length: "take (min (length xs) k) xs = take k xs"
  by (simp add: min_def)

lemma std_content:
  fixes S :: "byte list"
  assumes "0 \<notin> set S"
  shows "takeWhile (\<lambda>b. b \<noteq> 0) (take k (S @ 0 # rest)) = take (min (length S) k) S"
proof (cases "k \<le> length S")
  case True
  then have "take k (S @ 0 # rest) = take k S" by simp
  moreover from assms have "0 \<notin> set (take k S)" by (auto dest: in_set_takeD)
  then have "takeWhile (\<lambda>b. b \<noteq> 0) (take k S) = take k S" by (rule takeWhile_no_zero)
  moreover from True have "min (length S) k = k" by simp
  ultimately show ?thesis by simp
next
  case False
  then obtain j where "k - length S = Suc j" by (cases "k - length S") auto
  with False assms show ?thesis by (simp add: takeWhile_tail takeWhile_no_zero)
qed

lemma strndup_terminator:
  assumes "strndup str maxlen st = (ret, st')" and "ret \<noteq> 0"
  shows "mem st' (ret + fst (strnlen str maxlen st)) = 0"
proof -
  from assms(1) obtain len st1 st2 where
    a: "strnlen str maxlen st = (len, st1)"
    and c: "st' = (if ret = 0 then st2 else store (ret + len) 0 (memcpy ret str len st2))"
    using strndup_run by blast
  from a c assms(2) show ?thesis by (simp add: store_def)
qed

subsection \<open>Running the model on concrete inputs\<close>

lemma addr_seq_numeral:
  "addr_seq p (numeral k) = p # addr_seq (p + 1) (pred_numeral k)"
  by (simp add: numeral_eq_Suc)

lemma strnlen_loop_numeral:
  "strnlen_loop s (numeral k) i st =
     (case load (s + i) st of
        (b, st') \<Rightarrow> if b = 0 then (i, st') else strnlen_loop s (pred_numeral k) (i + 1) st')"
  by (simp add: numeral_eq_Suc)

lemma memcpy_loop_numeral:
  "memcpy_loop dst src (numeral k) i st =
     (case load (src + i) st of
        (b, st') \<Rightarrow> memcpy_loop dst src (pred_numeral k) (i + 1) (store (dst + i) b st'))"
  by (simp add: numeral_eq_Suc)

lemmas run_simps = strndup_def strnlen_def malloc_def memcpy_def load_def store_def
  strnlen_loop_numeral memcpy_loop_numeral addr_seq_numeral load_bytes_def
  demo_state_def pool_alloc_def no_alloc_def bytes_of_def separate_def Let_def

lemma hello_world_cstring:
  "cstring_at (demo_state A ''hello world'') 0x1000 (bytes_of ''hello world'')"
  by (simp add: cstring_at_def holds_string_def obj_ok_def within_def run_simps)

lemma hi_cstring:
  "cstring_at (demo_state A ''hi'') 0x1000 (bytes_of ''hi'')"
  by (simp add: cstring_at_def holds_string_def obj_ok_def within_def run_simps)

lemma pool_sound: "alloc_sound (demo_state (pool_alloc 0x2000) cs)"
  by (simp add: alloc_sound_def obj_ok_def demo_state_def pool_alloc_def Let_def separate_def)

lemma pool_sound_at:
  "base \<noteq> 0 \<Longrightarrow> unat base + 64 \<le> 2 ^ 64 \<Longrightarrow> alloc_sound (demo_state (pool_alloc base) cs)"
  by (auto simp: alloc_sound_def obj_ok_def demo_state_def pool_alloc_def Let_def separate_def)

section \<open>Allocation failure\<close>

text \<open>
  Claim C2.  Whatever the input and the bound, \<^verbatim>\<open>strndup\<close> returns the null pointer
  exactly when the allocator answers null for the request of \<open>len + 1\<close> bytes, so
  allocation failure is its only failure mode; and when the result is null the store is
  unchanged, no write was made and the table of live objects is unchanged.
\<close>

theorem strndup_alloc_failure:
  assumes "strndup str maxlen st = (ret, st')"
  shows "(ret = 0) = (allocator st (objects st) (fst (strnlen str maxlen st) + 1) = 0) \<and>
         (ret = 0 \<longrightarrow>
            mem st' = mem st \<and> writes (trace st') = writes (trace st) \<and>
            objects st' = objects st)"
proof -
  from assms obtain len st1 st2 where
    a: "strnlen str maxlen st = (len, st1)" and b: "malloc (len + 1) st1 = (ret, st2)"
    using strndup_run by blast
  have "ret = allocator st (objects st) (len + 1)"
    using malloc_frame(3) [OF b] strnlen_frame(2,3) [OF a] by simp
  with a strndup_null [OF assms] show ?thesis by simp
qed

theorem strndup_alloc_failure_witness:
  "fst (strndup 0x1000 5 (demo_state no_alloc ''hello world'')) = 0 \<and>
   mem (snd (strndup 0x1000 5 (demo_state no_alloc ''hello world'')))
     = mem (demo_state no_alloc ''hello world'') \<and>
   writes (trace (snd (strndup 0x1000 5 (demo_state no_alloc ''hello world'')))) = []"
proof -
  let ?st = "demo_state no_alloc ''hello world''"
  have run: "strndup 0x1000 5 ?st = (fst (strndup 0x1000 5 ?st), snd (strndup 0x1000 5 ?st))"
    by simp
  have null: "fst (strndup 0x1000 5 ?st) = 0" by (simp add: run_simps)
  have "writes (trace ?st) = []" by (simp add: demo_state_def)
  with strndup_alloc_failure [OF run] null show ?thesis by simp
qed

section \<open>A bound of zero\<close>

text \<open>
  Claim C4.  With the bound \<open>0\<close>, whatever the input pointer, \<^verbatim>\<open>strndup\<close> requests one
  byte; its result is null only if the allocator answers null for that request, and
  otherwise the result holds the empty string: its first byte is the terminator.
\<close>

theorem strndup_zero_bound:
  assumes "strndup str 0 st = (ret, st')"
  shows "(ret = 0) = (allocator st (objects st) 1 = 0) \<and>
         (ret \<noteq> 0 \<longrightarrow> holds_string (mem st') ret [])"
  using assms
  by (auto simp: strndup_def strnlen_def malloc_def memcpy_def store_def Let_def
        holds_string_def load_bytes_def split: if_splits)

theorem strndup_zero_bound_witness:
  "fst (strndup 0x1000 0 (demo_state (pool_alloc 0x2000) ''hello world'')) \<noteq> 0 \<and>
   holds_string (mem (snd (strndup 0x1000 0 (demo_state (pool_alloc 0x2000) ''hello world''))))
     (fst (strndup 0x1000 0 (demo_state (pool_alloc 0x2000) ''hello world''))) []"
proof -
  let ?st = "demo_state (pool_alloc 0x2000) ''hello world''"
  have run: "strndup 0x1000 0 ?st = (fst (strndup 0x1000 0 ?st), snd (strndup 0x1000 0 ?st))"
    by simp
  have nz: "fst (strndup 0x1000 0 ?st) \<noteq> 0" by (simp add: run_simps)
  with strndup_zero_bound [OF run] show ?thesis by simp
qed

section \<open>The copy and its length\<close>

text \<open>
  Claim C1.  For a zero-terminated string \<open>S\<close> lying in a live object and any bound, a
  non-null result of \<^verbatim>\<open>strndup\<close> (under a sound allocator) is a zero-terminated string
  inside a live object whose content is the first \<open>min (length S) bound\<close> bytes of \<open>S\<close>;
  its length does not exceed the bound.
\<close>

theorem strndup_prefix_copy:
  fixes str :: "'a::len word"
  assumes "cstring_at st str S" and "alloc_sound st"
    and "strndup str maxlen st = (ret, st')" and "ret \<noteq> 0"
  shows "cstring_at st' ret (take (min (length S) (unat maxlen)) S) \<and>
         holds_string (mem st') ret (take (min (length S) (unat maxlen)) S) \<and>
         length (take (min (length S) (unat maxlen)) S) \<le> unat maxlen"
  using strndup_string [OF assms] by (simp add: cstring_at_def)

theorem strndup_prefix_copy_witness:
  "fst (strndup 0x1000 5 (demo_state (pool_alloc 0x2000) ''hello world'')) = 0x2000 \<and>
   holds_string (mem (snd (strndup 0x1000 5 (demo_state (pool_alloc 0x2000) ''hello world''))))
     0x2000 (bytes_of ''hello'') \<and>
   length (bytes_of ''hello'') \<le> unat (5 :: 64 word)"
proof -
  let ?st = "demo_state (pool_alloc 0x2000) ''hello world''"
  have run: "strndup 0x1000 5 ?st = (0x2000, snd (strndup 0x1000 5 ?st))"
    by (simp add: run_simps)
  have nz: "(0x2000 :: 64 word) \<noteq> 0" by simp
  have tk: "take (min (length (bytes_of ''hello world'')) (unat (5 :: 64 word)))
              (bytes_of ''hello world'') = bytes_of ''hello''"
    by (simp add: bytes_of_def)
  have ret: "fst (strndup 0x1000 5 ?st) = 0x2000" by (simp add: run_simps)
  from strndup_prefix_copy [OF hello_world_cstring pool_sound run nz] ret show ?thesis
    unfolding tk by (simp add: bytes_of_def)
qed

text \<open>
  Claim C3.  When the string is no longer than the bound, the non-null result holds the
  whole string: the \<open>length S + 1\<close> bytes at the result, terminator included, are those
  at the input, whatever the bound beyond \<open>length S\<close>.
\<close>

theorem strndup_whole_string:
  fixes str :: "'a::len word"
  assumes "cstring_at st str S" and "alloc_sound st"
    and "strndup str maxlen st = (ret, st')" and "ret \<noteq> 0"
    and "length S \<le> unat maxlen"
  shows "holds_string (mem st') ret S \<and>
         load_bytes (mem st') ret (length S + 1) = load_bytes (mem st) str (length S + 1)"
proof -
  from assms(5) have n: "min (length S) (unat maxlen) = length S" by simp
  from strndup_string [OF assms(1-4)] have "holds_string (mem st') ret S"
    by (simp add: n cstring_at_def)
  moreover from assms(1) have "holds_string (mem st) str S" by (simp add: cstring_at_def)
  ultimately show ?thesis by (simp add: holds_string_def)
qed

theorem strndup_whole_string_witness:
  "holds_string (mem (snd (strndup 0x1000 10 (demo_state (pool_alloc 0x2000) ''hi''))))
     0x2000 (bytes_of ''hi'') \<and>
   load_bytes (mem (snd (strndup 0x1000 10 (demo_state (pool_alloc 0x2000) ''hi'')))) 0x2000 3
     = bytes_of ''hi'' @ [0]"
proof -
  let ?st = "demo_state (pool_alloc 0x2000) ''hi''"
  have run: "strndup 0x1000 10 ?st = (0x2000, snd (strndup 0x1000 10 ?st))"
    by (simp add: run_simps)
  have nz: "(0x2000 :: 64 word) \<noteq> 0" by simp
  have le: "length (bytes_of ''hi'') \<le> unat (10 :: 64 word)" by (simp add: bytes_of_def)
  have src: "load_bytes (mem ?st) 0x1000 3 = bytes_of ''hi'' @ [0]" by (simp add: run_simps)
  from strndup_whole_string [OF hi_cstring pool_sound run nz le] src show ?thesis
    by (simp add: bytes_of_def numeral_3_eq_3)
qed

section \<open>The request made to the allocator\<close>

text \<open>
  Claim C6.  For a zero-terminated string \<open>S\<close> lying in a live object and any bound,
  \<^verbatim>\<open>strndup\<close> makes exactly one request to the allocator, of
  \<open>min (length S) bound + 1\<close> bytes (the sum does not wrap), whether or not it succeeds.
  When the result is not null, the block granted has that size and its extra byte, at
  offset \<open>min (length S) bound\<close>, holds the zero terminator; under a sound allocator the
  block is the \<open>min (length S) bound\<close> bytes of the content followed by that terminator.
\<close>

theorem strndup_request_size:
  fixes str :: "'a::len word"
  assumes "cstring_at st str S" and "strndup str maxlen st = (ret, st')"
  shows "(\<exists>n. requests (trace st') = n # requests (trace st) \<and>
              unat n = min (length S) (unat maxlen) + 1) \<and>
         (ret \<noteq> 0 \<longrightarrow>
            objects st' = (ret, min (length S) (unat maxlen) + 1) # objects st \<and>
            mem st' (ret + of_nat (min (length S) (unat maxlen))) = 0) \<and>
         (ret \<noteq> 0 \<and> alloc_sound st \<longrightarrow>
            load_bytes (mem st') ret (min (length S) (unat maxlen) + 1)
              = take (min (length S) (unat maxlen)) S @ [0])"
proof -
  let ?n = "min (length S) (unat maxlen)"
  let ?len = "fst (strnlen str maxlen st)"
  have eq: "strnlen str maxlen st = (?len, snd (strnlen str maxlen st))" by simp
  have len: "?len = of_nat ?n" and len1: "unat (?len + 1) = ?n + 1"
    by (rule strnlen_string(1) [OF assms(1) eq]) (rule strnlen_string(3) [OF assms(1) eq])
  from len1 strndup_objects(3) [OF assms(2)]
  have 1: "\<exists>n. requests (trace st') = n # requests (trace st) \<and> unat n = ?n + 1" by blast
  have 2: "ret \<noteq> 0 \<longrightarrow> objects st' = (ret, ?n + 1) # objects st \<and> mem st' (ret + of_nat ?n) = 0"
    using strndup_objects(1) [OF assms(2)] strndup_terminator [OF assms(2)] len len1 by simp
  have 3: "ret \<noteq> 0 \<and> alloc_sound st \<longrightarrow>
            load_bytes (mem st') ret (?n + 1) = take ?n S @ [0]"
    using strndup_content [OF assms(1) _ assms(2)] by blast
  from 1 2 3 show ?thesis by blast
qed

theorem strndup_request_size_witness:
  "requests (trace (snd (strndup 0x1000 5 (demo_state (pool_alloc 0x2000) ''hello world'')))) = [6] \<and>
   objects (snd (strndup 0x1000 5 (demo_state (pool_alloc 0x2000) ''hello world'')))
     = [(0x2000, 6), (0x1000, 12)] \<and>
   mem (snd (strndup 0x1000 5 (demo_state (pool_alloc 0x2000) ''hello world''))) 0x2005 = 0 \<and>
   load_bytes (mem (snd (strndup 0x1000 5 (demo_state (pool_alloc 0x2000) ''hello world'')))) 0x2000 6
     = bytes_of ''hello'' @ [0]"
proof -
  let ?st = "demo_state (pool_alloc 0x2000) ''hello world''"
  have run: "strndup 0x1000 5 ?st = (0x2000, snd (strndup 0x1000 5 ?st))"
    by (simp add: run_simps)
  have nz: "(0x2000 :: 64 word) \<noteq> 0" by simp
  have rq: "requests (trace ?st) = []" and ob: "objects ?st = [(0x1000, 12)]"
    by (simp_all add: demo_state_def)
  have n: "min (length (bytes_of ''hello world'')) (unat (5 :: 64 word)) = 5"
    by (simp add: bytes_of_def)
  have tk: "take 5 (bytes_of ''hello world'') = bytes_of ''hello''" by (simp add: bytes_of_def)
  note inst = strndup_request_size [OF hello_world_cstring run, unfolded n rq ob]
  from inst obtain k :: "64 word" where
    "requests (trace (snd (strndup 0x1000 5 ?st))) = [k]" and "unat k = 6" by auto
  moreover from \<open>unat k = 6\<close> have "k = 6" by (simp add: word_unat_eq_iff)
  moreover from inst nz pool_sound [of "''hello world''"]
  have "objects (snd (strndup 0x1000 5 ?st)) = [(0x2000, 6), (0x1000, 12)]"
    and "mem (snd (strndup 0x1000 5 ?st)) 0x2005 = 0"
    and "load_bytes (mem (snd (strndup 0x1000 5 ?st))) 0x2000 6 = bytes_of ''hello'' @ [0]"
    by (simp_all add: tk)
  ultimately show ?thesis by simp
qed

section \<open>What is read\<close>

text \<open>
  Claim C5.  Whatever the store holds (a terminator among the first \<open>maxlen\<close> bytes or
  not), the length computation of \<^verbatim>\<open>strndup\<close>, \<^verbatim>\<open>strnlen(str, maxlen)\<close>, reads \<open>n\<close>
  consecutive bytes from \<open>str\<close> for some \<open>n\<close> of at most \<open>maxlen\<close>, and nothing else;
  the rest of the call reads again at most \<open>maxlen\<close> bytes from \<open>str\<close>.
\<close>

theorem strndup_bounded_scan:
  assumes "strndup str maxlen st = (ret, st')"
  shows "\<exists>len st1 n k.
           strnlen str maxlen st = (len, st1) \<and>
           n \<le> unat maxlen \<and> reads (trace st1) = rev (addr_seq str n) @ reads (trace st) \<and>
           k \<le> unat maxlen \<and> reads (trace st') = rev (addr_seq str k) @ reads (trace st1)"
proof -
  let ?len = "fst (strnlen str maxlen st)"
  let ?n = "min (unat maxlen) (Suc (unat ?len))"
  let ?k = "if ret = 0 then 0 else unat ?len"
  have "?k \<le> unat maxlen" using strnlen_le [of str maxlen st] by simp
  with strndup_reads [OF assms] show ?thesis
    by (intro exI [of _ ?len] exI [of _ "snd (strnlen str maxlen st)"]
          exI [of _ ?n] exI [of _ ?k]) simp
qed

theorem strndup_bounded_scan_witness:
  "reads (trace (snd (strnlen 0x1000 5 (demo_state (pool_alloc 0x2000) ''hello world''))))
     = rev (addr_seq 0x1000 5) \<and>
   (\<exists>len st1 n k.
      strnlen 0x1000 5 (demo_state (pool_alloc 0x2000) ''hello world'') = (len, st1) \<and>
      n \<le> unat (5 :: 64 word) \<and>
      reads (trace st1) = rev (addr_seq 0x1000 n)
         @ reads (trace (demo_state (pool_alloc 0x2000) ''hello world'')) \<and>
      k \<le> unat (5 :: 64 word) \<and>
      reads (trace (snd (strndup 0x1000 5 (demo_state (pool_alloc 0x2000) ''hello world''))))
        = rev (addr_seq 0x1000 k) @ reads (trace st1))"
proof -
  let ?st = "demo_state (pool_alloc 0x2000) ''hello world''"
  have run: "strndup 0x1000 5 ?st = (fst (strndup 0x1000 5 ?st), snd (strndup 0x1000 5 ?st))"
    by simp
  have "reads (trace (snd (strnlen 0x1000 5 ?st))) = rev (addr_seq 0x1000 5)"
    by (simp add: run_simps)
  with strndup_bounded_scan [OF run] show ?thesis by simp
qed

section \<open>What is left unchanged\<close>

text \<open>
  Claim C7.  For a zero-terminated string \<open>S\<close> lying in a live object and a sound
  allocator, a call of \<^verbatim>\<open>strndup\<close> leaves the input string in place and unchanged;
  every byte of the store outside the \<open>min (length S) bound + 1\<close> bytes of the new block
  is unchanged, and the whole store when the result is null; the table of live objects
  only gains the new block; the allocator is unchanged; reads are confined to the bytes
  of the input string and writes to the new block.
\<close>

theorem strndup_frame:
  fixes str :: "'a::len word"
  assumes "cstring_at st str S" and "alloc_sound st"
    and "strndup str maxlen st = (ret, st')"
  shows "cstring_at st' str S \<and>
         (\<forall>a. \<not> in_block ret (min (length S) (unat maxlen) + 1) a \<longrightarrow> mem st' a = mem st a) \<and>
         (ret = 0 \<longrightarrow> mem st' = mem st) \<and>
         objects st' =
           (if ret = 0 then objects st
            else (ret, min (length S) (unat maxlen) + 1) # objects st) \<and>
         allocator st' = allocator st \<and>
         set (reads (trace st')) \<subseteq> set (reads (trace st)) \<union> {a. in_block str (length S + 1) a} \<and>
         fst ` set (writes (trace st')) \<subseteq>
           fst ` set (writes (trace st)) \<union> {a. in_block ret (min (length S) (unat maxlen) + 1) a}"
proof -
  let ?n = "min (length S) (unat maxlen)"
  let ?len = "fst (strnlen str maxlen st)"
  have len: "unat (?len + 1) = ?n + 1" and len': "unat ?len = ?n"
    using strnlen_string(2,3) [OF assms(1), of maxlen ?len "snd (strnlen str maxlen st)"]
    by simp_all
  have 1: "cstring_at st' str S" by (rule strndup_input_kept [OF assms])
  have 2: "\<forall>a. \<not> in_block ret (?n + 1) a \<longrightarrow> mem st' a = mem st a"
    using strndup_outside [OF assms(3)] by (simp add: len')
  have 3: "ret = 0 \<longrightarrow> mem st' = mem st" using strndup_null(1) [OF assms(3)] by simp
  have 4: "objects st' = (if ret = 0 then objects st else (ret, ?n + 1) # objects st)"
    using strndup_objects(1) [OF assms(3)] by (simp add: len)
  have 5: "allocator st' = allocator st" by (rule strndup_objects(2) [OF assms(3)])
  have 6: "set (reads (trace st')) \<subseteq> set (reads (trace st)) \<union> {a. in_block str (length S + 1) a}"
  proof -
    have "min (unat maxlen) (Suc ?n) \<le> length S + 1" by simp
    then have a: "x \<in> set (addr_seq str (min (unat maxlen) (Suc ?n))) \<Longrightarrow> in_block str (length S + 1) x" for x
      using in_block_mono [OF in_block_addr_seq] by blast
    have "?n \<le> length S + 1" by simp
    then have b: "x \<in> set (addr_seq str ?n) \<Longrightarrow> in_block str (length S + 1) x" for x
      using in_block_mono [OF in_block_addr_seq] by blast
    show ?thesis
      unfolding strndup_reads(2) [OF assms(3)] strndup_reads(1) [OF assms(3)] len'
      using a b by auto
  qed
  have 7: "fst ` set (writes (trace st')) \<subseteq>
           fst ` set (writes (trace st)) \<union> {a. in_block ret (?n + 1) a}"
  proof -
    have "set (map fst (writes (trace st'))) \<subseteq>
            set (map fst (writes (trace st))) \<union> {a. in_block ret (?n + 1) a}"
      unfolding strndup_writes [OF assms(3)]
      using in_block_addr_seq [of _ ret ?n] in_block_mono [of ret ?n _ "?n + 1"]
      by (auto simp: len' in_block_def)
    then show ?thesis by simp
  qed
  from 1 2 3 4 5 6 7 show ?thesis by blast
qed

theorem strndup_frame_witness:
  "cstring_at (snd (strndup 0x1000 5 (demo_state (pool_alloc 0x2000) ''hello world'')))
     0x1000 (bytes_of ''hello world'') \<and>
   objects (snd (strndup 0x1000 5 (demo_state (pool_alloc 0x2000) ''hello world'')))
     = [(0x2000, 6), (0x1000, 12)] \<and>
   mem (snd (strndup 0x1000 5 (demo_state (pool_alloc 0x2000) ''hello world''))) 0x1FFF = 0xAA \<and>
   mem (snd (strndup 0x1000 5 (demo_state (pool_alloc 0x2000) ''hello world''))) 0x2006 = 0xAA"
proof -
  let ?st = "demo_state (pool_alloc 0x2000) ''hello world''"
  have run: "strndup 0x1000 5 ?st = (0x2000, snd (strndup 0x1000 5 ?st))"
    by (simp add: run_simps)
  have n: "min (length (bytes_of ''hello world'')) (unat (5 :: 64 word)) + 1 = 6"
    by (simp add: bytes_of_def)
  have ob: "objects ?st = [(0x1000, 12)]" by (simp add: demo_state_def)
  have out: "\<not> in_block (0x2000 :: 64 word) 6 0x1FFF" "\<not> in_block (0x2000 :: 64 word) 6 0x2006"
    using in_block_interval [of "0x2000 :: 64 word" 6] by simp_all
  have old: "mem ?st 0x1FFF = 0xAA" "mem ?st 0x2006 = 0xAA"
    by (simp_all add: run_simps)
  from strndup_frame [OF hello_world_cstring pool_sound run] out old show ?thesis
    unfolding n ob by simp
qed

section \<open>Agreement with the platform primitive\<close>

text \<open>
  Claim C8.  The fallback agrees with the platform primitive \<open>std_strndup\<close>, given the
  same answer of the allocator for the request: where the primitive has no result the
  fallback returns null, and where the primitive creates a string with some content
  the fallback returns a non-null pointer to a zero-terminated string with that
  content.  The array the pointer refers to is \<open>S\<close>, its terminator and any bytes after.
\<close>

theorem strndup_refines_std:
  fixes str :: "'a::len word"
  assumes "cstring_at st str S" and "alloc_sound st"
    and "strndup str maxlen st = (ret, st')"
  shows "case std_strndup (S @ 0 # rest) (unat maxlen)
                (allocator st (objects st) (of_nat (min (length S) (unat maxlen)) + 1) \<noteq> 0) of
           None \<Rightarrow> ret = 0
         | Some bs \<Rightarrow> ret \<noteq> 0 \<and> holds_string (mem st') ret bs"
proof -
  let ?n = "min (length S) (unat maxlen)"
  have "fst (strnlen str maxlen st) = of_nat ?n"
    using strnlen_string(1) [OF assms(1), of maxlen "fst (strnlen str maxlen st)" "snd (strnlen str maxlen st)"]
    by simp
  with strndup_ret_eq [OF assms(3)]
  have ret: "ret = allocator st (objects st) (of_nat ?n + 1)" by simp
  from assms(1) have nz: "0 \<notin> set S" by (simp add: cstring_at_def holds_string_def)
  show ?thesis
  proof (cases "ret = 0")
    case True
    with ret show ?thesis by (simp add: std_strndup_def)
  next
    case False
    from strndup_string [OF assms False] have "holds_string (mem st') ret (take ?n S)"
      by (simp add: cstring_at_def)
    moreover from False ret
    have "std_strndup (S @ 0 # rest) (unat maxlen)
            (allocator st (objects st) (of_nat ?n + 1) \<noteq> 0) = Some (take ?n S)"
      by (simp only: std_strndup_def std_content [OF nz]) simp
    ultimately show ?thesis using False by simp
  qed
qed

theorem strndup_refines_std_witness:
  "std_strndup (bytes_of ''hello world'' @ 0 # [1, 2, 3]) 5 True = Some (bytes_of ''hello'') \<and>
   fst (strndup 0x1000 5 (demo_state (pool_alloc 0x2000) ''hello world'')) \<noteq> 0 \<and>
   holds_string (mem (snd (strndup 0x1000 5 (demo_state (pool_alloc 0x2000) ''hello world''))))
     (fst (strndup 0x1000 5 (demo_state (pool_alloc 0x2000) ''hello world''))) (bytes_of ''hello'') \<and>
   std_strndup (bytes_of ''hello world'' @ 0 # [1, 2, 3]) 5 False = None \<and>
   fst (strndup 0x1000 5 (demo_state no_alloc ''hello world'')) = 0"
proof -
  let ?st = "demo_state (pool_alloc 0x2000) ''hello world''"
  let ?sf = "demo_state no_alloc ''hello world''"
  have run: "strndup 0x1000 5 ?st = (fst (strndup 0x1000 5 ?st), snd (strndup 0x1000 5 ?st))"
    by simp
  have runf: "strndup 0x1000 5 ?sf = (fst (strndup 0x1000 5 ?sf), snd (strndup 0x1000 5 ?sf))"
    by simp
  have sf: "alloc_sound ?sf" by (simp add: alloc_sound_def demo_state_def no_alloc_def)
  have a: "allocator ?st (objects ?st)
             (of_nat (min (length (bytes_of ''hello world'')) (unat (5 :: 64 word))) + 1) \<noteq> 0"
    by (simp add: run_simps)
  have b: "\<not> allocator ?sf (objects ?sf)
             (of_nat (min (length (bytes_of ''hello world'')) (unat (5 :: 64 word))) + 1) \<noteq> 0"
    by (simp add: run_simps)
  have s1: "std_strndup (bytes_of ''hello world'' @ 0 # [1, 2, 3]) 5 True = Some (bytes_of ''hello'')"
    by (simp add: std_strndup_def bytes_of_def)
  have s2: "std_strndup (bytes_of ''hello world'' @ 0 # [1, 2, 3]) 5 False = None"
    by (simp add: std_strndup_def)
  have u: "unat (5 :: 64 word) = 5" by simp
  from strndup_refines_std [OF hello_world_cstring pool_sound run, of "[1, 2, 3]"]
  have "fst (strndup 0x1000 5 ?st) \<noteq> 0 \<and>
        holds_string (mem (snd (strndup 0x1000 5 ?st))) (fst (strndup 0x1000 5 ?st)) (bytes_of ''hello'')"
    unfolding u using a s1 by simp
  moreover from strndup_refines_std [OF hello_world_cstring sf runf, of "[1, 2, 3]"]
  have "fst (strndup 0x1000 5 ?sf) = 0"
    unfolding u using b s2 by simp
  ultimately show ?thesis using s1 s2 by simp
qed

section \<open>Relating two calls\<close>

text \<open>
  Claim C9.  Two successful calls of \<^verbatim>\<open>strndup\<close> with the same string and the same
  bound, from any two states, at any two addresses and under any two sound allocators,
  return buffers whose \<open>min (length S) bound + 1\<close> bytes are identical; both hold the
  same zero-terminated string.
\<close>

theorem strndup_deterministic:
  fixes str1 str2 :: "'a::len word"
  assumes "cstring_at st1 str1 S" and "alloc_sound st1"
    and "strndup str1 maxlen st1 = (ret1, st1')" and "ret1 \<noteq> 0"
    and "cstring_at st2 str2 S" and "alloc_sound st2"
    and "strndup str2 maxlen st2 = (ret2, st2')" and "ret2 \<noteq> 0"
  shows "load_bytes (mem st1') ret1 (min (length S) (unat maxlen) + 1)
           = load_bytes (mem st2') ret2 (min (length S) (unat maxlen) + 1) \<and>
         (\<exists>bs. holds_string (mem st1') ret1 bs \<and> holds_string (mem st2') ret2 bs)"
proof -
  have "load_bytes (mem st1') ret1 (min (length S) (unat maxlen) + 1)
           = load_bytes (mem st2') ret2 (min (length S) (unat maxlen) + 1)"
    using strndup_content [OF assms(1-4)] strndup_content [OF assms(5-8)] by simp
  moreover have "holds_string (mem st1') ret1 (take (min (length S) (unat maxlen)) S)"
    using strndup_string [OF assms(1-4)] by (simp add: cstring_at_def)
  moreover have "holds_string (mem st2') ret2 (take (min (length S) (unat maxlen)) S)"
    using strndup_string [OF assms(5-8)] by (simp add: cstring_at_def)
  ultimately show ?thesis by blast
qed

theorem strndup_deterministic_witness:
  "fst (strndup 0x1000 5 (demo_state (pool_alloc 0x2000) ''hello world'')) = 0x2000 \<and>
   fst (strndup 0x1000 5 (demo_state (pool_alloc 0x3000) ''hello world'')) = 0x3000 \<and>
   load_bytes (mem (snd (strndup 0x1000 5 (demo_state (pool_alloc 0x2000) ''hello world'')))) 0x2000 6
     = load_bytes (mem (snd (strndup 0x1000 5 (demo_state (pool_alloc 0x3000) ''hello world'')))) 0x3000 6"
proof -
  let ?s1 = "demo_state (pool_alloc 0x2000) ''hello world''"
  let ?s2 = "demo_state (pool_alloc 0x3000) ''hello world''"
  have r1: "strndup 0x1000 5 ?s1 = (0x2000, snd (strndup 0x1000 5 ?s1))" by (simp add: run_simps)
  have r2: "strndup 0x1000 5 ?s2 = (0x3000, snd (strndup 0x1000 5 ?s2))" by (simp add: run_simps)
  have f1: "fst (strndup 0x1000 5 ?s1) = 0x2000" by (simp add: run_simps)
  have f2: "fst (strndup 0x1000 5 ?s2) = 0x3000" by (simp add: run_simps)
  have n2: "(0x2000 :: 64 word) \<noteq> 0" and n3: "(0x3000 :: 64 word) \<noteq> 0" by simp_all
  have snd2: "alloc_sound ?s2" by (rule pool_sound_at) simp_all
  have n: "min (length (bytes_of ''hello world'')) (unat (5 :: 64 word)) + 1 = 6"
    by (simp add: bytes_of_def)
  from strndup_deterministic [OF hello_world_cstring pool_sound r1 n2 hello_world_cstring snd2 r2 n3]
  show ?thesis unfolding n using f1 f2 by simp
qed

text \<open>
  Claim C10.  For bounds \<open>B \<le> B'\<close> and the same string, when both calls succeed the
  string returned for \<open>B\<close> is a prefix of the string returned for \<open>B'\<close>.
\<close>

theorem strndup_monotone:
  fixes str1 str2 :: "'a::len word"
  assumes "cstring_at st1 str1 S" and "alloc_sound st1"
    and "strndup str1 B st1 = (ret1, st1')" and "ret1 \<noteq> 0"
    and "cstring_at st2 str2 S" and "alloc_sound st2"
    and "strndup str2 B' st2 = (ret2, st2')" and "ret2 \<noteq> 0"
    and "B \<le> B'"
  shows "holds_string (mem st1') ret1 (take (unat B) S) \<and>
         holds_string (mem st2') ret2 (take (unat B') S) \<and>
         prefix (take (unat B) S) (take (unat B') S)"
proof -
  have "holds_string (mem st1') ret1 (take (unat B) S)"
    using strndup_string [OF assms(1-4)] by (simp only: cstring_at_def take_min_length)
  moreover have "holds_string (mem st2') ret2 (take (unat B') S)"
    using strndup_string [OF assms(5-8)] by (simp only: cstring_at_def take_min_length)
  moreover from assms(9) have "unat B \<le> unat B'" by (simp add: word_le_nat_alt)
  then have "take (unat B) S = take (unat B) (take (unat B') S)" by (simp add: min_def)
  then have "prefix (take (unat B) S) (take (unat B') S)" by (metis take_is_prefix)
  ultimately show ?thesis by blast
qed

theorem strndup_monotone_witness:
  "holds_string (mem (snd (strndup 0x1000 5 (demo_state (pool_alloc 0x2000) ''hello world''))))
     0x2000 (bytes_of ''hello'') \<and>
   holds_string (mem (snd (strndup 0x1000 8 (demo_state (pool_alloc 0x2000) ''hello world''))))
     0x2000 (bytes_of ''hello wo'') \<and>
   prefix (bytes_of ''hello'') (bytes_of ''hello wo'')"
proof -
  let ?st = "demo_state (pool_alloc 0x2000) ''hello world''"
  have r1: "strndup 0x1000 5 ?st = (0x2000, snd (strndup 0x1000 5 ?st))" by (simp add: run_simps)
  have r2: "strndup 0x1000 8 ?st = (0x2000, snd (strndup 0x1000 8 ?st))" by (simp add: run_simps)
  have nz: "(0x2000 :: 64 word) \<noteq> 0" by simp
  have le: "(5 :: 64 word) \<le> 8" by simp
  have t1: "take (unat (5 :: 64 word)) (bytes_of ''hello world'') = bytes_of ''hello''"
    by (simp add: bytes_of_def)
  have t2: "take (unat (8 :: 64 word)) (bytes_of ''hello world'') = bytes_of ''hello wo''"
    by (simp add: bytes_of_def)
  from strndup_monotone [OF hello_world_cstring pool_sound r1 nz hello_world_cstring pool_sound r2 nz le]
  show ?thesis unfolding t1 t2 by simp
qed

end
